theory Spec2Isabelle
  imports Main "HOL-Library.Sublist"
begin

section \<open>Python values used by \<open>rpmautospec/changelog.py\<close>\<close>

text \<open>
  A Python \<open>bytes\<close> object is a list of 8-bit characters. A Python \<open>str\<close> is kept as
  its UTF-8 encoding, so \<open>bytes.decode("utf-8")\<close> only validates: it returns the same
  byte sequence or raises \<open>UnicodeDecodeError\<close>. Searching a \<open>str\<close> for an ASCII
  separator gives the same result on the encoding as on the code points.
\<close>

type_synonym bytes = string
type_synonym str = string

datatype error =
    OSError
  | GitError
  | ValueError
  | UnicodeDecodeError
  | IndexError
  | AttributeError
  | CommandFailed

definition NL :: char where
  "NL = CHR 0x0A"

subsection \<open>\<open>bytes.decode("utf-8")\<close>\<close>

definition cont_byte :: "nat \<Rightarrow> bool" where
  "cont_byte b = (0x80 \<le> b \<and> b \<le> 0xBF)"

text \<open>Well-formed UTF-8 byte sequences (the strict decoder of Python 3 accepts exactly these).\<close>

fun utf8_valid :: "nat list \<Rightarrow> bool" where
  "utf8_valid [] = True"
| "utf8_valid (b0 # bs) =
     (if b0 < 0x80 then utf8_valid bs
      else if 0xC2 \<le> b0 \<and> b0 \<le> 0xDF then
        (case bs of b1 # r \<Rightarrow> cont_byte b1 \<and> utf8_valid r | _ \<Rightarrow> False)
      else if 0xE0 \<le> b0 \<and> b0 \<le> 0xEF then
        (case bs of b1 # b2 # r \<Rightarrow>
           (if b0 = 0xE0 then 0xA0 \<le> b1 \<and> b1 \<le> 0xBF
            else if b0 = 0xED then 0x80 \<le> b1 \<and> b1 \<le> 0x9F
            else cont_byte b1) \<and> cont_byte b2 \<and> utf8_valid r
         | _ \<Rightarrow> False)
      else if 0xF0 \<le> b0 \<and> b0 \<le> 0xF4 then
        (case bs of b1 # b2 # b3 # r \<Rightarrow>
           (if b0 = 0xF0 then 0x90 \<le> b1 \<and> b1 \<le> 0xBF
            else if b0 = 0xF4 then 0x80 \<le> b1 \<and> b1 \<le> 0x8F
            else cont_byte b1) \<and> cont_byte b2 \<and> cont_byte b3 \<and> utf8_valid r
         | _ \<Rightarrow> False)
      else False)"

definition decode_utf8 :: "bytes \<Rightarrow> error + str" where
  "decode_utf8 bs =
     (if utf8_valid (map of_char bs) then Inr bs else Inl UnicodeDecodeError)"

subsection \<open>\<open>str.split(sep)\<close>, \<open>str.rsplit(sep, 1)[0]\<close>, \<open>str.strip\<close>, \<open>str.join\<close>\<close>

text \<open>
  \<open>split_from sep acc s\<close> scans \<open>s\<close> from the left for non-overlapping occurrences of
  \<open>sep\<close>; \<open>acc\<close> is the field read so far. Python raises on an empty separator; the
  script only passes the literals \<open>"\n"\<close> and two spaces.
\<close>

function split_from :: "string \<Rightarrow> string \<Rightarrow> string \<Rightarrow> string list" where
  "split_from sep acc s =
     (if s = [] then [acc]
      else if sep \<noteq> [] \<and> prefix sep s then acc # split_from sep [] (drop (length sep) s)
      else split_from sep (acc @ [hd s]) (tl s))"
  by pat_completeness auto
termination
  by (relation "measure (\<lambda>(sep, acc, s). length s)") auto

definition py_split :: "string \<Rightarrow> str \<Rightarrow> str list" where
  "py_split sep s = split_from sep [] s"

text \<open>\<open>s.split("\n")[0]\<close>: a split always has a first element.\<close>

definition first_line :: "str \<Rightarrow> str" where
  "first_line s = hd (py_split [NL] s)"

text \<open>\<open>s.rsplit(".", 1)[0]\<close>: the text before the last dot, all of \<open>s\<close> when it has none.\<close>

definition rsplit1_head :: "char \<Rightarrow> str \<Rightarrow> str" where
  "rsplit1_head c s =
     (if c \<in> set s then rev (tl (dropWhile (\<lambda>x. x \<noteq> c) (rev s))) else s)"

text \<open>
  The code points for which \<open>str.isspace\<close> holds, each as its UTF-8 encoding: the ASCII
  ones, then U+0085, U+00A0, U+1680, U+2000 to U+200A, U+2028, U+2029, U+202F, U+205F
  and U+3000.
\<close>

definition whitespace :: "string list" where
  "whitespace =
     map (\<lambda>n. [char_of n]) [9, 10, 11, 12, 13, 28, 29, 30, 31, 32 :: nat]
     @ map (map char_of) [[0xC2, 0x85], [0xC2, 0xA0], [0xE1, 0x9A, 0x80 :: nat]]
     @ map (\<lambda>n. map char_of [0xE2, 0x80, n]) [0x80 ..< 0x8B]
     @ map (map char_of)
         [[0xE2, 0x80, 0xA8], [0xE2, 0x80, 0xA9], [0xE2, 0x80, 0xAF],
          [0xE2, 0x81, 0x9F], [0xE3, 0x80, 0x80 :: nat]]"

text \<open>Dropping every leading (trailing) item of \<open>ws\<close>; the items are non-empty.\<close>

function lstrip_items :: "string list \<Rightarrow> string \<Rightarrow> string" where
  "lstrip_items ws s =
     (case find (\<lambda>w. w \<noteq> [] \<and> prefix w s) ws of
        None \<Rightarrow> s
      | Some w \<Rightarrow> lstrip_items ws (drop (length w) s))"
  by pat_completeness auto
termination
  by (relation "measure (\<lambda>(ws, s). length s)")
     (auto simp: find_Some_iff prefix_def)

definition rstrip_items :: "string list \<Rightarrow> string \<Rightarrow> string" where
  "rstrip_items ws s = rev (lstrip_items (map rev ws) (rev s))"

text \<open>\<open>s.strip()\<close>\<close>

definition strip :: "str \<Rightarrow> str" where
  "strip s = rstrip_items whitespace (lstrip_items whitespace s)"

text \<open>\<open>s.strip(chars)\<close> for ASCII \<open>chars\<close>\<close>

definition strip_chars :: "string \<Rightarrow> str \<Rightarrow> str" where
  "strip_chars chars s =
     rev (dropWhile (\<lambda>c. c \<in> set chars) (rev (dropWhile (\<lambda>c. c \<in> set chars) s)))"

fun join :: "string \<Rightarrow> str list \<Rightarrow> str" where
  "join sep [] = []"
| "join sep [x] = x"
| "join sep (x # y # ys) = x @ sep @ join sep (y # ys)"

text \<open>\<open>s.endswith((".spec", ".patch"))\<close>\<close>

definition endswith :: "str \<Rightarrow> string list \<Rightarrow> bool" where
  "endswith s sufs = (\<exists>x \<in> set sufs. suffix x s)"

text \<open>\<open>t[i]\<close> on a tuple raises \<open>IndexError\<close> out of range (the indices used are 1 and 2).\<close>

definition tuple_get :: "'a list \<Rightarrow> nat \<Rightarrow> error + 'a" where
  "tuple_get t i = (if i < length t then Inr (t ! i) else Inl IndexError)"

subsection \<open>\<open>os.path\<close>\<close>

definition basename :: "string \<Rightarrow> string" where
  "basename p = rev (takeWhile (\<lambda>c. c \<noteq> CHR ''/'') (rev p))"

definition path_join :: "string \<Rightarrow> string \<Rightarrow> string" where
  "path_join a b =
     (if b \<noteq> [] \<and> hd b = CHR ''/'' then b
      else if a = [] \<or> last a = CHR ''/'' then a @ b
      else a @ ''/'' @ b)"

subsection \<open>\<open>datetime\<close>\<close>

text \<open>
  A \<open>datetime\<close> is a number of microseconds since 1970-01-01T00:00:00 UTC.
  \<open>utcfromtimestamp\<close> raises for a timestamp outside the years 1 to 9999:
  \<open>ValueError\<close> where the C library's \<open>gmtime\<close> still converts the timestamp (its year
  fits a C \<open>int\<close>), \<open>OSError\<close> beyond. A commit time is a 64-bit integer.
\<close>

type_synonym datetime = int

definition utcfromtimestamp :: "int \<Rightarrow> error + datetime" where
  "utcfromtimestamp t =
     (if - 62135596800 \<le> t \<and> t \<le> 253402300799 then Inr (t * 1000000)
      else if - 67768040609740800 \<le> t \<and> t \<le> 67768036191676799 then Inl ValueError
      else Inl OSError)"

definition timedelta_days :: "int \<Rightarrow> int" where
  "timedelta_days n = n * 86400 * 1000000"

text \<open>Year, month and day of the proleptic Gregorian calendar from the day number.\<close>

definition civil_from_days :: "int \<Rightarrow> int \<times> int \<times> int" where
  "civil_from_days days =
     (let z = days + 719468;
          era = z div 146097;
          doe = z - era * 146097;
          yoe = (doe - doe div 1460 + doe div 36524 - doe div 146096) div 365;
          doy = doe - (365 * yoe + yoe div 4 - yoe div 100);
          mp = (5 * doy + 2) div 153;
          d = doy - (153 * mp + 2) div 5 + 1;
          m = (if mp < 10 then mp + 3 else mp - 9);
          y = yoe + era * 400 + (if m \<le> 2 then 1 else 0)
      in (y, m, d))"

definition digit :: "nat \<Rightarrow> char" where
  "digit n = char_of (48 + n mod 10)"

fun show_nat :: "nat \<Rightarrow> string" where
  "show_nat n = (if n < 10 then [digit n] else show_nat (n div 10) @ [digit n])"

definition day_names :: "string list" where
  "day_names = [''Mon'', ''Tue'', ''Wed'', ''Thu'', ''Fri'', ''Sat'', ''Sun'']"

definition month_names :: "string list" where
  "month_names = [''Jan'', ''Feb'', ''Mar'', ''Apr'', ''May'', ''Jun'',
                  ''Jul'', ''Aug'', ''Sep'', ''Oct'', ''Nov'', ''Dec'']"

text \<open>
  \<open>dt.strftime('%a %b %d %Y')\<close> in the C locale; the year is printed as glibc does,
  without padding (it has four digits from the year 1000 on).
\<close>

definition strftime_a_b_d_Y :: "datetime \<Rightarrow> string" where
  "strftime_a_b_d_Y dt =
     (let days = dt div timedelta_days 1;
          (y, m, d) = civil_from_days days
      in day_names ! nat ((days + 3) mod 7) @ '' ''
         @ month_names ! nat (m - 1) @ '' ''
         @ [digit (nat d div 10), digit (nat d)] @ '' ''
         @ show_nat (nat y))"

section \<open>The repository and the environment\<close>

text \<open>A commit as \<open>pygit2\<close> hands it over; \<open>parents\<close> holds the ids of the parents.\<close>

record commit =
  hex :: string
  parents :: "string list"
  commit_time :: int
  author_name :: str
  author_email :: str
  message :: str

text \<open>\<open>repo_obj.diff(...)\<close>: the deltas, each by its \<open>new_file.path\<close>.\<close>

record diff =
  deltas :: "str list"

text \<open>\<open>diff.stats.files_changed\<close> is the number of deltas.\<close>

definition stats_files_changed :: "diff \<Rightarrow> nat" where
  "stats_files_changed d = length (deltas d)"

text \<open>
  What \<open>subprocess.check_output\<close> does: it returns the captured standard output, raises
  \<open>CalledProcessError\<close> (exit status, standard output, standard error) when the exit
  status is not zero, or raises another exception because the command could not be
  run at all (\<open>FileNotFoundError\<close> when the executable is absent).
\<close>

datatype proc_outcome =
    Returned bytes
  | CalledProcessError int bytes bytes
  | NotRun

text \<open>
  One element of \<open>repo_obj.walk(...)\<close> together with what the environment answers
  while the loop body runs on it: the clock read by \<open>utcnow\<close>, whether
  \<open>checkout_tree\<close> succeeds, whether the spec file exists after the checkout, the
  outcome of the \<open>rpm\<close> call and the diff (\<open>None\<close> when computing it raises). An
  answer to a call the body never makes is not looked at.
\<close>

record visit =
  commit :: commit
  utcnow :: datetime
  checkout_ok :: bool
  spec_exists :: bool
  query :: proc_outcome
  diff_result :: "diff option"

text \<open>
  The environment of one run: the path of the fresh temporary directory (\<open>None\<close> when
  it cannot be created), whether \<open>shutil.copytree\<close> succeeds, the exception that
  lines 50 to 53 raise if any (\<open>GitError\<close> when the copy does not open as a repository
  or has no commit yet, \<open>AttributeError\<close> when \<open>HEAD\<close> is detached and \<open>lookup_branch\<close>
  returns \<open>None\<close>), and the commits the walk yields.
\<close>

record world =
  mkdtemp :: "string option"
  copytree_ok :: bool
  repository_error :: "error option"
  history :: "visit list"

text \<open>The calls that reach outside the process, in the order they are made.\<close>

datatype pyval = PyStr str | PyInt int | PyBytes bytes

datatype event =
    TempDirCreate string
  | CopyTree string string
  | OpenRepository string
  | CheckoutTree string string
  | PathExists string
  | CheckOutput "string list" string
  | LogError string "pyval list"
  | RepoDiff string string string
  | DiffToTree string string
  | Print string
  | TempDirCleanup string

section \<open>\<open>run_command\<close>\<close>

text \<open>
  Each \<open>_log.error(fmt.format(args))\<close> is kept as the format string and its arguments.
\<close>

definition run_command :: "string list \<Rightarrow> string \<Rightarrow> proc_outcome \<Rightarrow> event list \<times> (error + bytes)" where
  "run_command command cwd outcome =
     (case outcome of
        Returned output \<Rightarrow> ([CheckOutput command cwd], Inr output)
      | CalledProcessError returncode out err \<Rightarrow>
          ([CheckOutput command cwd,
            LogError ''Command `{}` return code: `{}`'' [PyStr (join '' '' command), PyInt returncode],
            LogError (''stdout:'' @ [NL] @ ''-------'' @ [NL] @ ''{}'') [PyBytes out],
            LogError (''stderr:'' @ [NL] @ ''-------'' @ [NL] @ ''{}'') [PyBytes err]],
           Inl CommandFailed)
      | NotRun \<Rightarrow> ([CheckOutput command cwd], Inl OSError))"

section \<open>\<open>produce_changelog\<close>: the walk\<close>

text \<open>
  \<open>data\<close> is a \<open>defaultdict(list)\<close>: the keys in insertion order, each with the commits
  appended to it. A key is the tuple of fields of the query output.
\<close>

type_synonym key = "str list"
type_synonym data = "(key \<times> commit list) list"

fun data_append :: "key \<Rightarrow> commit \<Rightarrow> data \<Rightarrow> data" where
  "data_append k c [] = [(k, [c])]"
| "data_append k c ((k', cs) # rest) =
     (if k' = k then (k', cs @ [c]) # rest else (k', cs) # data_append k c rest)"

definition rpm_command :: "string \<Rightarrow> string list" where
  "rpm_command name =
     [''rpm'', ''--qf'', ''%{name}  %{version}  %{release}'' @ [NL], ''--specfile'',
      name @ ''.spec'']"

text \<open>
  Lines 82 to 84: the tuple read from the decoded output. The string \<open>nvr\<close> that
  line 85 joins from it is not read before the rendering loop rebinds the name.
\<close>

definition parse_output :: "str \<Rightarrow> key" where
  "parse_output text = py_split ''  '' (rsplit1_head (CHR ''.'') (first_line (strip text)))"

text \<open>Lines 95 to 98: the flag after the loop over the changed files.\<close>

definition ignore_flag :: "str list \<Rightarrow> bool" where
  "ignore_flag files_changed =
     fold (\<lambda>filename ignore. if endswith filename [''.spec'', ''.patch''] then False else ignore)
       files_changed True"

datatype ctl = Continue | Break

text \<open>
  One iteration of the loop on \<open>v\<close>: the calls it makes, and either the exception that
  leaves the loop or how the loop goes on and with which \<open>data\<close>.
\<close>

definition step :: "string \<Rightarrow> string \<Rightarrow> data \<Rightarrow> visit \<Rightarrow> event list \<times> (error + ctl \<times> data)" where
  "step name repocopy data v =
     (let c = commit v in
      if length (parents c) > 1 then ([], Inr (Continue, data))
      else case utcfromtimestamp (commit_time c) of
        Inl e \<Rightarrow> ([], Inl e)
      | Inr commit_dt \<Rightarrow>
        if commit_dt < utcnow v - timedelta_days 730 then ([], Inr (Break, data))
        else
          let ev1 = [CheckoutTree repocopy (hex c)] in
          if \<not> checkout_ok v then (ev1, Inl GitError)
          else
            let ev2 = ev1 @ [PathExists (path_join repocopy (name @ ''.spec''))] in
            if spec_exists v then
              (case run_command (rpm_command name) repocopy (query v) of
                 (evq, Inl e) \<Rightarrow> (ev2 @ evq, Inr (Continue, data))
               | (evq, Inr raw) \<Rightarrow>
                 (case decode_utf8 raw of
                    Inl e \<Rightarrow> (ev2 @ evq, Inl e)
                  | Inr text \<Rightarrow>
                    let output = parse_output text;
                        ev3 = ev2 @ evq @
                          [case parents c of
                             p # ps \<Rightarrow> RepoDiff repocopy p (hex c)
                           | [] \<Rightarrow> DiffToTree repocopy (hex c)]
                    in case diff_result v of
                         None \<Rightarrow> (ev3, Inl GitError)
                       | Some d \<Rightarrow>
                         if stats_files_changed d \<noteq> 0 then
                           (if \<not> ignore_flag (deltas d)
                            then (ev3, Inr (Continue, data_append output c data))
                            else (ev3, Inr (Continue, data)))
                         else (ev3, Inr (Continue, data))))
            else (ev2 @ [Print ''No more spec file, bailing''], Inr (Break, data)))"

fun walk :: "string \<Rightarrow> string \<Rightarrow> data \<Rightarrow> visit list \<Rightarrow> event list \<times> (error + data)" where
  "walk name repocopy data [] = ([], Inr data)"
| "walk name repocopy data (v # vs) =
     (case step name repocopy data v of
        (es, Inl e) \<Rightarrow> (es, Inl e)
      | (es, Inr (Break, data')) \<Rightarrow> (es, Inr data')
      | (es, Inr (Continue, data')) \<Rightarrow>
          (case walk name repocopy data' vs of (es', r) \<Rightarrow> (es @ es', r)))"

section \<open>\<open>produce_changelog\<close>: the rendering\<close>

text \<open>
  \<open>textwrap.TextWrapper(width=75, subsequent_indent="  ").fill\<close> is the standard
  library's; the rendering takes it as the parameter \<open>fill\<close>.
\<close>

definition header :: "datetime \<Rightarrow> commit \<Rightarrow> str" where
  "header commit_dt c =
     ''* '' @ strftime_a_b_d_Y commit_dt @ '' '' @ author_name c @ '' <'' @ author_email c @ ''>''"

definition message_line :: "(str \<Rightarrow> str) \<Rightarrow> commit \<Rightarrow> str" where
  "message_line fill c = ''- '' @ fill (strip_chars ''- '' (first_line (message c)))"

text \<open>The three lines one commit adds; \<open>last_commit\<close> is the flag of line 107.\<close>

definition render_entry :: "(str \<Rightarrow> str) \<Rightarrow> key \<Rightarrow> bool \<Rightarrow> commit \<Rightarrow> error + str list" where
  "render_entry fill nvr last_commit c =
     (case utcfromtimestamp (commit_time c) of
        Inl e \<Rightarrow> Inl e
      | Inr commit_dt \<Rightarrow>
        if last_commit then
          (case tuple_get nvr 1 of
             Inl e \<Rightarrow> Inl e
           | Inr version \<Rightarrow>
             (case tuple_get nvr 2 of
                Inl e \<Rightarrow> Inl e
              | Inr release \<Rightarrow>
                Inr [header commit_dt c @ '' - '' @ version @ ''-'' @ release,
                     message_line fill c, []]))
        else Inr [header commit_dt c, message_line fill c, []])"

text \<open>The inner loop over \<open>enumerate(reversed(commits))\<close>, from index \<open>idx\<close> on.\<close>

fun render_commits :: "(str \<Rightarrow> str) \<Rightarrow> key \<Rightarrow> nat \<Rightarrow> nat \<Rightarrow> commit list \<Rightarrow> error + str list" where
  "render_commits fill nvr n idx [] = Inr []"
| "render_commits fill nvr n idx (c # cs) =
     (case render_entry fill nvr (idx + 1 = n) c of
        Inl e \<Rightarrow> Inl e
      | Inr ls \<Rightarrow>
        (case render_commits fill nvr n (idx + 1) cs of
           Inl e \<Rightarrow> Inl e
         | Inr rest \<Rightarrow> Inr (ls @ rest)))"

definition render_group :: "(str \<Rightarrow> str) \<Rightarrow> key \<times> commit list \<Rightarrow> error + str list" where
  "render_group fill g =
     (case g of (nvr, commits) \<Rightarrow> render_commits fill nvr (length commits) 0 (rev commits))"

fun render :: "(str \<Rightarrow> str) \<Rightarrow> data \<Rightarrow> error + str list" where
  "render fill [] = Inr []"
| "render fill (g # gs) =
     (case render_group fill g of
        Inl e \<Rightarrow> Inl e
      | Inr ls \<Rightarrow>
        (case render fill gs of
           Inl e \<Rightarrow> Inl e
         | Inr rest \<Rightarrow> Inr (ls @ rest)))"

section \<open>\<open>produce_changelog\<close>\<close>

text \<open>The body of the \<open>with\<close> block: copy, open, walk.\<close>

definition with_body :: "string \<Rightarrow> string \<Rightarrow> string \<Rightarrow> world \<Rightarrow> event list \<times> (error + data)" where
  "with_body repopath name repocopy w =
     (if \<not> copytree_ok w then ([CopyTree repopath repocopy], Inl OSError)
      else case repository_error w of
        Some e \<Rightarrow> ([CopyTree repopath repocopy, OpenRepository repocopy], Inl e)
      | None \<Rightarrow>
        (case walk name repocopy [] (history w) of
           (es, r) \<Rightarrow> ([CopyTree repopath repocopy, OpenRepository repocopy] @ es, r)))"

text \<open>
  The \<open>with tempfile.TemporaryDirectory()\<close> statement runs the clean-up of the
  directory when its body is left, by falling off its end, by \<open>break\<close> or by an
  exception. The rendering loop comes after the \<open>with\<close> statement.
\<close>

definition produce_changelog :: "(str \<Rightarrow> str) \<Rightarrow> string \<Rightarrow> world \<Rightarrow> event list \<times> (error + str list)" where
  "produce_changelog fill repopath w =
     (let name = basename repopath in
      case mkdtemp w of
        None \<Rightarrow> ([], Inl OSError)
      | Some workdir \<Rightarrow>
        let repocopy = workdir @ ''/'' @ name in
        case with_body repopath name repocopy w of
          (es, r) \<Rightarrow>
            ([TempDirCreate workdir] @ es @ [TempDirCleanup workdir],
             case r of Inl e \<Rightarrow> Inl e | Inr data \<Rightarrow> render fill data))"

section \<open>Notions used in the statements\<close>

text \<open>
  \<open>survives v\<close>: the loop body on \<open>v\<close> passes the merge test of line 56 and the age test
  of line 61, so it goes on to the checkout.
\<close>

definition survives :: "visit \<Rightarrow> bool" where
  "survives v =
     (length (parents (commit v)) \<le> 1 \<and>
      (case utcfromtimestamp (commit_time (commit v)) of
         Inl e \<Rightarrow> False
       | Inr commit_dt \<Rightarrow> \<not> commit_dt < utcnow v - timedelta_days 730))"

text \<open>\<open>queried v\<close>: the loop body on \<open>v\<close> gets as far as calling \<open>run_command\<close>.\<close>

definition queried :: "visit \<Rightarrow> bool" where
  "queried v = (survives v \<and> checkout_ok v \<and> spec_exists v)"

text \<open>\<open>recorded data c\<close>: some group of \<open>data\<close> holds \<open>c\<close>.\<close>

definition recorded :: "data \<Rightarrow> commit \<Rightarrow> bool" where
  "recorded data c = (\<exists>g \<in> set data. c \<in> set (snd g))"

text \<open>The lines of a commit whose header has no version-release suffix.\<close>

definition plain_entry :: "(str \<Rightarrow> str) \<Rightarrow> commit \<Rightarrow> str list" where
  "plain_entry fill c = [header (commit_time c * 1000000) c, message_line fill c, []]"

text \<open>The lines of a commit whose header ends in the version-release suffix.\<close>

definition release_entry :: "(str \<Rightarrow> str) \<Rightarrow> str \<Rightarrow> str \<Rightarrow> commit \<Rightarrow> str list" where
  "release_entry fill version release c =
     [header (commit_time c * 1000000) c @ '' - '' @ version @ ''-'' @ release,
      message_line fill c, []]"

text \<open>
  \<open>loop_event repocopy e\<close>: \<open>e\<close> is a call the loop body can make, and a checkout among
  them is a checkout in the repository at \<open>repocopy\<close>.
\<close>

definition loop_event :: "string \<Rightarrow> event \<Rightarrow> bool" where
  "loop_event repocopy e =
     (case e of
        TempDirCreate p \<Rightarrow> False
      | TempDirCleanup p \<Rightarrow> False
      | CopyTree src dst \<Rightarrow> False
      | OpenRepository p \<Rightarrow> False
      | CheckoutTree p h \<Rightarrow> p = repocopy
      | _ \<Rightarrow> True)"

text \<open>\<open>times_ok data\<close>: \<open>utcfromtimestamp\<close> converts the timestamp of every commit in \<open>data\<close>.\<close>

definition times_ok :: "data \<Rightarrow> bool" where
  "times_ok data =
     list_all (\<lambda>g. list_all (\<lambda>c. utcfromtimestamp (commit_time c) = Inr (commit_time c * 1000000))
                       (snd g)) data"

text \<open>\<open>printable c\<close>: \<open>c\<close> is a visible ASCII character, so neither a space nor a newline.\<close>

definition printable :: "char \<Rightarrow> bool" where
  "printable c = (0x21 \<le> (of_char c :: nat) \<and> (of_char c :: nat) \<le> 0x7E)"

text \<open>
  \<open>group_lines fill g\<close>: the entries of the commits of the group \<open>g\<close> from the last
  appended to the first, each without a suffix but the last one, the entry of the
  first commit of the group, whose suffix is made of the fields at positions 1 and 2
  of the key.
\<close>

definition group_lines :: "(str \<Rightarrow> str) \<Rightarrow> key \<times> commit list \<Rightarrow> str list" where
  "group_lines fill g =
     (case g of
        (nvr, []) \<Rightarrow> []
      | (nvr, c # cs) \<Rightarrow>
          concat (map (plain_entry fill) (rev cs)) @ release_entry fill (nvr ! 1) (nvr ! 2) c)"

section \<open>A small repository for the examples\<close>

text \<open>
  Two commits to \<open>pkg.spec\<close> on 2020-06-01 and 2020-06-02, a merge commit, and a run on
  2020-09-13. The messages are single short words or phrases, which
  \<open>textwrap.fill\<close> returns unchanged.
\<close>

definition c_new :: commit where
  "c_new = \<lparr>hex = ''c2'', parents = [''c1''], commit_time = 1591100000,
            author_name = ''Ann'', author_email = ''ann@example.org'',
            message = ''Update to 1.0''\<rparr>"

definition c_old :: commit where
  "c_old = \<lparr>hex = ''c1'', parents = [], commit_time = 1591000000,
            author_name = ''Bob'', author_email = ''bob@example.org'',
            message = ''- Initial import''\<rparr>"

definition c_merge :: commit where
  "c_merge = \<lparr>hex = ''c3'', parents = [''c2'', ''b1''], commit_time = 1591200000,
              author_name = ''Ann'', author_email = ''ann@example.org'',
              message = ''Merge branch''\<rparr>"

definition clock :: datetime where
  "clock = 1600000000 * 1000000"

definition rpm_output :: bytes where
  "rpm_output = ''pkg  1.0  1.fc32'' @ [NL]"

definition visit_of :: "commit \<Rightarrow> visit" where
  "visit_of c =
     \<lparr>commit = c, utcnow = clock, checkout_ok = True, spec_exists = True,
      query = Returned rpm_output,
      diff_result = Some \<lparr>deltas = [''pkg.spec'']\<rparr>\<rparr>"

definition world_of :: "visit list \<Rightarrow> world" where
  "world_of vs =
     \<lparr>mkdtemp = Some ''/tmp/tmpw'', copytree_ok = True, repository_error = None,
      history = vs\<rparr>"

text \<open>
  Variations: the \<open>rpm\<close> call exits with status 1, \<open>rpm\<close> is not installed, the spec
  file is missing after the checkout, a commit one second older than the cut-off of
  this clock (2018-09-14T12:26:40) and one exactly at it, a commit that touches
  neither a spec file nor a patch, a checkout that fails,
  query outputs of two and of four fields, the output for a release without a dot, a merge commit of 2017, and a commit dated one
  second before the year 1.
\<close>

definition v_failed :: visit where
  "v_failed = (visit_of c_new)\<lparr>query := CalledProcessError 1 [] ''error: bad spec''\<rparr>"

definition v_not_run :: visit where
  "v_not_run = (visit_of c_new)\<lparr>query := NotRun\<rparr>"

definition v_no_spec :: visit where
  "v_no_spec = (visit_of c_old)\<lparr>spec_exists := False\<rparr>"

definition v_too_old :: visit where
  "v_too_old = visit_of (c_old\<lparr>commit_time := 1536927999\<rparr>)"

definition v_at_cutoff :: visit where
  "v_at_cutoff = visit_of (c_old\<lparr>commit_time := 1536928000\<rparr>)"

definition v_unrelated :: visit where
  "v_unrelated = (visit_of c_new)\<lparr>diff_result := Some \<lparr>deltas = [''README.md'', ''sources'']\<rparr>\<rparr>"

definition v_checkout_fails :: visit where
  "v_checkout_fails = (visit_of c_old)\<lparr>checkout_ok := False\<rparr>"

definition two_fields :: bytes where
  "two_fields = ''pkg  7'' @ [NL]"

definition v_two_fields :: visit where
  "v_two_fields = (visit_of c_old)\<lparr>query := Returned two_fields\<rparr>"

definition four_fields :: bytes where
  "four_fields = ''pkg  1.0  1  extra.fc32'' @ [NL]"

definition v_four_fields :: visit where
  "v_four_fields = (visit_of c_old)\<lparr>query := Returned four_fields\<rparr>"

definition no_dist_tag :: bytes where
  "no_dist_tag = ''pkg  1.0  1'' @ [NL]"

definition v_no_dist_tag :: visit where
  "v_no_dist_tag = (visit_of c_new)\<lparr>query := Returned no_dist_tag\<rparr>"

definition v_old_merge :: visit where
  "v_old_merge = visit_of (c_merge\<lparr>commit_time := 1500000000\<rparr>)"

definition v_year_0 :: visit where
  "v_year_0 = visit_of (c_old\<lparr>commit_time := - 62135596801\<rparr>)"

section \<open>The loop, one commit at a time\<close>


lemma walk_Cons:
  "walk name rc d (v # vs) =
     (case step name rc d v of
        (es, Inl e) \<Rightarrow> (es, Inl e)
      | (es, Inr (Break, d')) \<Rightarrow> (es, Inr d')
      | (es, Inr (Continue, d')) \<Rightarrow>
          (es @ fst (walk name rc d' vs), snd (walk name rc d' vs)))"
  by (simp split: prod.splits sum.splits ctl.splits)

lemma walk_continue:
  "step name rc d v = (es, Inr (Continue, d')) \<Longrightarrow>
   walk name rc d (v # vs) = (es @ fst (walk name rc d' vs), snd (walk name rc d' vs))"
  by (simp split: prod.splits)

lemma walk_break:
  "step name rc d v = (es, Inr (Break, d')) \<Longrightarrow> walk name rc d (v # vs) = (es, Inr d')"
  by simp

lemma walk_raise:
  "step name rc d v = (es, Inl e) \<Longrightarrow> walk name rc d (v # vs) = (es, Inl e)"
  by simp

lemma walk_skip:
  assumes "\<And>d. step name rc d v = ([], Inr (Continue, d))"
  shows "walk name rc d (pre @ v # post) = walk name rc d (pre @ post)"
proof (induction pre arbitrary: d)
  case Nil
  show ?case using assms [of d] by (simp split: prod.splits)
next
  case (Cons u pre)
  show ?case
    by (simp add: walk_Cons Cons.IH del: walk.simps split: prod.splits sum.splits ctl.splits)
qed

lemma walk_skip_result:
  assumes "\<And>d. snd (step name rc d v) = Inr (Continue, d)"
  shows "snd (walk name rc d (pre @ v # post)) = snd (walk name rc d (pre @ post))"
proof (induction pre arbitrary: d)
  case Nil
  obtain es where "step name rc d v = (es, Inr (Continue, d))"
    using assms [of d] by (cases "step name rc d v") simp
  then show ?case by (simp split: prod.splits)
next
  case (Cons u pre)
  show ?case
    by (simp add: walk_Cons Cons.IH del: walk.simps split: prod.splits sum.splits ctl.splits)
qed


lemma walk_stop:
  assumes "\<And>d. step name rc d v = ([], Inr (Break, d))"
  shows "walk name rc d (pre @ v # post) = walk name rc d pre"
proof (induction pre arbitrary: d)
  case Nil
  show ?case using assms [of d] by simp
next
  case (Cons u pre)
  show ?case
    by (simp add: walk_Cons Cons.IH del: walk.simps split: prod.splits sum.splits ctl.splits)
qed

lemma produce_changelog_history_result:
  assumes "\<And>name rc. snd (walk name rc [] h1) = snd (walk name rc [] h2)"
  shows "snd (produce_changelog fill repopath (w\<lparr>history := h1\<rparr>))
       = snd (produce_changelog fill repopath (w\<lparr>history := h2\<rparr>))"
proof (cases "mkdtemp w")
  case None
  then show ?thesis by (simp add: produce_changelog_def)
next
  case (Some workdir)
  let ?name = "basename repopath"
  let ?rc = "workdir @ ''/'' @ ?name"
  have "snd (with_body repopath ?name ?rc (w\<lparr>history := h1\<rparr>))
      = snd (with_body repopath ?name ?rc (w\<lparr>history := h2\<rparr>))"
    using assms [of ?name ?rc]
    by (cases "repository_error w") (simp_all add: with_body_def case_prod_beta)
  then show ?thesis
    using Some by (simp add: produce_changelog_def Let_def case_prod_beta)
qed

lemma produce_changelog_history:
  assumes "\<And>name rc. walk name rc [] h1 = walk name rc [] h2"
  shows "produce_changelog fill repopath (w\<lparr>history := h1\<rparr>)
       = produce_changelog fill repopath (w\<lparr>history := h2\<rparr>)"
  using assms
  by (cases "mkdtemp w"; cases "repository_error w")
     (simp_all add: produce_changelog_def with_body_def Let_def case_prod_beta)

lemma step_merge:
  "1 < length (parents (commit v)) \<Longrightarrow> step name rc d v = ([], Inr (Continue, d))"
  by (simp add: step_def)

text \<open>
  Claim C5. A commit with more than one parent is never checked out, never handed to
  the query and never rendered, whatever its diff touches, and the walk goes on with
  the next commit: the whole run, calls made and lines returned, is the run on the
  history without that commit.
\<close>

theorem merge_commit_skipped:
  assumes "1 < length (parents (commit v))"
  shows "produce_changelog fill repopath (w\<lparr>history := pre @ v # post\<rparr>)
       = produce_changelog fill repopath (w\<lparr>history := pre @ post\<rparr>)"
  by (rule produce_changelog_history) (rule walk_skip, rule step_merge, rule assms)


theorem merge_commit_skipped_witness:
  "1 < length (parents (commit (visit_of c_merge))) \<and>
   produce_changelog (\<lambda>s. s) ''/home/u/pkg''
     (world_of [visit_of c_merge, visit_of c_new, visit_of c_old])
   = produce_changelog (\<lambda>s. s) ''/home/u/pkg'' (world_of [visit_of c_new, visit_of c_old])"
proof -
  have h: "1 < length (parents (commit (visit_of c_merge)))"
    by (simp add: visit_of_def c_merge_def)
  show ?thesis
    using h merge_commit_skipped [OF h, where fill = "\<lambda>s. s" and repopath = "''/home/u/pkg''"
        and w = "world_of []" and pre = "[]" and post = "[visit_of c_new, visit_of c_old]"]
    by (simp add: world_of_def)
qed

lemma survives_cases:
  assumes "survives v"
  obtains dt where "\<not> 1 < length (parents (commit v))"
    and "utcfromtimestamp (commit_time (commit v)) = Inr dt"
    and "\<not> dt < utcnow v - timedelta_days 730"
  using assms by (auto simp: survives_def split: sum.splits)

lemma step_query_failed:
  assumes "queried v" and "query v = CalledProcessError returncode out err"
  shows "step name rc d v =
     ([CheckoutTree rc (hex (commit v)),
       PathExists (path_join rc (name @ ''.spec'')),
       CheckOutput (rpm_command name) rc,
       LogError ''Command `{}` return code: `{}`''
         [PyStr (join '' '' (rpm_command name)), PyInt returncode],
       LogError (''stdout:'' @ [NL] @ ''-------'' @ [NL] @ ''{}'') [PyBytes out],
       LogError (''stderr:'' @ [NL] @ ''-------'' @ [NL] @ ''{}'') [PyBytes err]],
      Inr (Continue, d))"
proof -
  from assms(1) have s: "survives v" and c: "checkout_ok v" and e: "spec_exists v"
    by (simp_all add: queried_def)
  from s obtain dt where "\<not> 1 < length (parents (commit v))"
    and "utcfromtimestamp (commit_time (commit v)) = Inr dt"
    and "\<not> dt < utcnow v - timedelta_days 730"
    by (rule survives_cases)
  then show ?thesis
    using c e assms(2) by (simp add: step_def Let_def run_command_def)
qed

lemma step_query_not_run:
  assumes "queried v" and "query v = NotRun"
  shows "step name rc d v =
     ([CheckoutTree rc (hex (commit v)),
       PathExists (path_join rc (name @ ''.spec'')),
       CheckOutput (rpm_command name) rc],
      Inr (Continue, d))"
proof -
  from assms(1) have s: "survives v" and c: "checkout_ok v" and e: "spec_exists v"
    by (simp_all add: queried_def)
  from s obtain dt where "\<not> 1 < length (parents (commit v))"
    and "utcfromtimestamp (commit_time (commit v)) = Inr dt"
    and "\<not> dt < utcnow v - timedelta_days 730"
    by (rule survives_cases)
  then show ?thesis
    using c e assms(2) by (simp add: step_def Let_def run_command_def)
qed


lemma step_too_old:
  assumes "length (parents (commit v)) \<le> 1"
    and "utcfromtimestamp (commit_time (commit v)) = Inr dt"
    and "dt < utcnow v - timedelta_days 730"
  shows "step name rc d v = ([], Inr (Break, d))"
  using assms by (simp add: step_def Let_def)

lemma step_survivor_checkout:
  assumes "survives v"
  shows "\<exists>es r. step name rc d v = (CheckoutTree rc (hex (commit v)) # es, r)"
proof -
  from assms obtain dt where "\<not> 1 < length (parents (commit v))"
    and "utcfromtimestamp (commit_time (commit v)) = Inr dt"
    and "\<not> dt < utcnow v - timedelta_days 730"
    by (rule survives_cases)
  then show ?thesis
    by (simp add: step_def Let_def run_command_def
        split: proc_outcome.splits sum.splits option.splits)
qed


section \<open>Failures of the query\<close>


lemmas example_defs =
  c_new_def c_old_def c_merge_def clock_def visit_of_def world_of_def
  v_failed_def v_not_run_def v_no_spec_def v_too_old_def v_at_cutoff_def
  v_old_merge_def v_year_0_def v_unrelated_def v_checkout_fails_def
  v_two_fields_def v_four_fields_def v_no_dist_tag_def

lemmas guard_defs =
  queried_def survives_def utcfromtimestamp_def timedelta_days_def

text \<open>
  Claim C7. When the \<open>rpm\<close> call exits with a non-zero status, three errors are logged
  (the command with the exit status, the captured standard output, the captured
  standard error), \<open>data\<close> is left as it was, and the walk goes on with the next
  commit: the failure does not end the run.
\<close>

theorem query_failure_logged:
  assumes "queried v" and "query v = CalledProcessError returncode out err"
  shows "walk name rc d (v # vs) =
     ([CheckoutTree rc (hex (commit v)),
       PathExists (path_join rc (name @ ''.spec'')),
       CheckOutput (rpm_command name) rc,
       LogError ''Command `{}` return code: `{}`''
         [PyStr (join '' '' (rpm_command name)), PyInt returncode],
       LogError (''stdout:'' @ [NL] @ ''-------'' @ [NL] @ ''{}'') [PyBytes out],
       LogError (''stderr:'' @ [NL] @ ''-------'' @ [NL] @ ''{}'') [PyBytes err]]
      @ fst (walk name rc d vs),
      snd (walk name rc d vs))"
  by (rule walk_continue) (rule step_query_failed [OF assms])

theorem query_failure_logged_witness:
  "queried v_failed \<and> query v_failed = CalledProcessError 1 [] ''error: bad spec'' \<and>
   walk ''pkg'' ''/tmp/tmpw/pkg'' [] [v_failed, visit_of c_old] =
     ([CheckoutTree ''/tmp/tmpw/pkg'' ''c2'',
       PathExists ''/tmp/tmpw/pkg/pkg.spec'',
       CheckOutput (rpm_command ''pkg'') ''/tmp/tmpw/pkg'',
       LogError ''Command `{}` return code: `{}`''
         [PyStr (''rpm --qf %{name}  %{version}  %{release}'' @ [NL] @ '' --specfile pkg.spec''),
          PyInt 1],
       LogError (''stdout:'' @ [NL] @ ''-------'' @ [NL] @ ''{}'') [PyBytes []],
       LogError (''stderr:'' @ [NL] @ ''-------'' @ [NL] @ ''{}'') [PyBytes ''error: bad spec'']]
      @ fst (walk ''pkg'' ''/tmp/tmpw/pkg'' [] [visit_of c_old]),
      snd (walk ''pkg'' ''/tmp/tmpw/pkg'' [] [visit_of c_old]))"
proof -
  have q: "queried v_failed"
    by (simp add: example_defs guard_defs)
  have f: "query v_failed = CalledProcessError 1 [] ''error: bad spec''"
    by (simp add: v_failed_def)
  have h: "hex (commit v_failed) = ''c2''"
    by (simp add: v_failed_def visit_of_def c_new_def)
  show ?thesis
    using q f query_failure_logged [OF q f, of "''pkg''" "''/tmp/tmpw/pkg''" "[]"
        "[visit_of c_old]"]
    by (simp add: h path_join_def rpm_command_def)
qed

lemma step_query_exception:
  assumes "queried v" and "\<forall>raw. query v \<noteq> Returned raw"
  shows "snd (step name rc d v) = Inr (Continue, d)"
proof (cases "query v")
  case (Returned raw)
  with assms(2) show ?thesis by simp
next
  case (CalledProcessError returncode out err)
  then show ?thesis by (simp add: step_query_failed [OF assms(1)])
next
  case NotRun
  then show ?thesis by (simp add: step_query_not_run [OF assms(1)])
qed

text \<open>
  Claim C10. Whatever exception the \<open>rpm\<close> call raises, a non-zero exit status or a
  failure to run the command at all, the loop body catches it: nothing is recorded
  for the commit, the loop continues, and the result of the run is the result of the
  run on the history without that commit.
\<close>

theorem query_exception_skips_commit:
  assumes "queried v" and "\<forall>raw. query v \<noteq> Returned raw"
  shows "snd (step name rc d v) = Inr (Continue, d) \<and>
         snd (produce_changelog fill repopath (w\<lparr>history := pre @ v # post\<rparr>))
       = snd (produce_changelog fill repopath (w\<lparr>history := pre @ post\<rparr>))"
proof
  show "snd (step name rc d v) = Inr (Continue, d)"
    by (rule step_query_exception [OF assms])
  show "snd (produce_changelog fill repopath (w\<lparr>history := pre @ v # post\<rparr>))
      = snd (produce_changelog fill repopath (w\<lparr>history := pre @ post\<rparr>))"
    by (rule produce_changelog_history_result)
       (rule walk_skip_result, rule step_query_exception [OF assms])
qed

theorem query_exception_skips_commit_witness:
  "queried v_not_run \<and> (\<forall>raw. query v_not_run \<noteq> Returned raw) \<and>
   snd (step ''pkg'' ''/tmp/tmpw/pkg'' [] v_not_run) = Inr (Continue, []) \<and>
   snd (produce_changelog (\<lambda>s. s) ''/home/u/pkg'' (world_of [v_not_run, visit_of c_old]))
   = snd (produce_changelog (\<lambda>s. s) ''/home/u/pkg'' (world_of [visit_of c_old]))"
proof -
  have q: "queried v_not_run"
    by (simp add: example_defs guard_defs)
  have f: "\<forall>raw. query v_not_run \<noteq> Returned raw"
    by (simp add: v_not_run_def)
  show ?thesis
    using q f query_exception_skips_commit [OF q f, where name = "''pkg''"
        and rc = "''/tmp/tmpw/pkg''" and d = "[]" and fill = "\<lambda>s. s"
        and repopath = "''/home/u/pkg''" and w = "world_of []" and pre = "[]"
        and post = "[visit_of c_old]"]
    by (simp add: world_of_def)
qed

section \<open>The relevance filter and the temporary directory\<close>


lemma fold_ignore:
  "fold (\<lambda>filename ignore. if endswith filename [''.spec'', ''.patch''] then False else ignore)
     fs b
   = (b \<and> \<not> (\<exists>p \<in> set fs. suffix ''.spec'' p \<or> suffix ''.patch'' p))"
  by (induction fs arbitrary: b) (auto simp: endswith_def)

lemma ignore_flag_iff:
  "ignore_flag fs = (\<not> (\<exists>p \<in> set fs. suffix ''.spec'' p \<or> suffix ''.patch'' p))"
  by (simp add: ignore_flag_def fold_ignore)

lemma recorded_Nil: "recorded [] c = False"
  by (simp add: recorded_def)

lemma recorded_Cons: "recorded ((k, cs) # data) c = (c \<in> set cs \<or> recorded data c)"
  by (simp add: recorded_def)

lemma recorded_data_append:
  "recorded (data_append k c data) c' = (c' = c \<or> recorded data c')"
proof (induction data)
  case Nil
  show ?case by (simp add: recorded_Nil recorded_Cons)
next
  case (Cons g data)
  obtain k' cs where g: "g = (k', cs)" by (cases g)
  show ?case
    unfolding g using Cons.IH by (auto simp: recorded_Cons)
qed

lemma step_recorded:
  assumes "queried v" and "query v = Returned raw" and "decode_utf8 raw = Inr text"
    and "diff_result v = Some d"
  shows "snd (step name rc data v) =
           Inr (Continue,
                if \<exists>p \<in> set (deltas d). suffix ''.spec'' p \<or> suffix ''.patch'' p
                then data_append (parse_output text) (commit v) data else data)"
proof -
  from assms(1) have s: "survives v" and c: "checkout_ok v" and e: "spec_exists v"
    by (simp_all add: queried_def)
  from s obtain dt where "\<not> 1 < length (parents (commit v))"
    and "utcfromtimestamp (commit_time (commit v)) = Inr dt"
    and "\<not> dt < utcnow v - timedelta_days 730"
    by (rule survives_cases)
  then show ?thesis
    using c e assms(2-4)
    by (auto simp: step_def Let_def run_command_def ignore_flag_iff stats_files_changed_def)
qed

text \<open>
  Claim C6. Take a commit, not recorded yet, for which the loop body reaches the
  query, the query returns and decodes, and the diff (against the first parent, or
  for a parentless commit against the empty tree) is computed. The loop goes on, and
  the commit is recorded exactly when one of the changed paths ends in \<open>.spec\<close> or
  \<open>.patch\<close>: under the tuple read from the output when one does, and in no group, with
  \<open>data\<close> unchanged, when the diff touches no file or none with such a suffix.
\<close>

theorem relevance_filter:
  assumes "queried v" and "query v = Returned raw" and "decode_utf8 raw = Inr text"
    and "diff_result v = Some d" and "\<not> recorded data (commit v)"
  shows "\<exists>data'. snd (step name rc data v) = Inr (Continue, data') \<and>
           data' = (if \<exists>p \<in> set (deltas d). suffix ''.spec'' p \<or> suffix ''.patch'' p
                    then data_append (parse_output text) (commit v) data else data) \<and>
           recorded data' (commit v)
             = (\<exists>p \<in> set (deltas d). suffix ''.spec'' p \<or> suffix ''.patch'' p)"
  using assms(5) by (simp add: step_recorded [OF assms(1-4)] recorded_data_append)


lemma example_output:
  "decode_utf8 rpm_output = Inr rpm_output"
  "parse_output rpm_output = [''pkg'', ''1.0'', ''1'']"
  by code_simp+

lemma example_paths:
  "suffix ''.spec'' ''pkg.spec''"
  "\<not> suffix ''.spec'' ''README.md''" "\<not> suffix ''.patch'' ''README.md''"
  "\<not> suffix ''.spec'' ''sources''" "\<not> suffix ''.patch'' ''sources''"
  by code_simp+

theorem relevance_filter_witness:
  "queried (visit_of c_new) \<and>
   query (visit_of c_new) = Returned rpm_output \<and>
   decode_utf8 rpm_output = Inr rpm_output \<and>
   diff_result (visit_of c_new) = Some \<lparr>deltas = [''pkg.spec'']\<rparr> \<and>
   \<not> recorded [] (commit (visit_of c_new)) \<and>
   snd (step ''pkg'' ''/tmp/tmpw/pkg'' [] (visit_of c_new))
     = Inr (Continue, [([''pkg'', ''1.0'', ''1''], [c_new])]) \<and>
   recorded [([''pkg'', ''1.0'', ''1''], [c_new])] (commit (visit_of c_new)) \<and>
   queried v_unrelated \<and>
   query v_unrelated = Returned rpm_output \<and>
   diff_result v_unrelated = Some \<lparr>deltas = [''README.md'', ''sources'']\<rparr> \<and>
   \<not> recorded [] (commit v_unrelated) \<and>
   snd (step ''pkg'' ''/tmp/tmpw/pkg'' [] v_unrelated) = Inr (Continue, [])"
proof -
  have q: "queried (visit_of c_new)"
    and r: "query (visit_of c_new) = Returned rpm_output"
    and d: "diff_result (visit_of c_new) = Some \<lparr>deltas = [''pkg.spec'']\<rparr>"
    and n: "\<not> recorded [] (commit (visit_of c_new))"
    and c: "commit (visit_of c_new) = c_new"
    by (simp_all add: example_defs guard_defs recorded_Nil)
  have q': "queried v_unrelated"
    and r': "query v_unrelated = Returned rpm_output"
    and d': "diff_result v_unrelated = Some \<lparr>deltas = [''README.md'', ''sources'']\<rparr>"
    and n': "\<not> recorded [] (commit v_unrelated)"
    by (simp_all add: example_defs guard_defs recorded_Nil)
  show ?thesis
    using q r d n q' r' d' n'
      relevance_filter [OF q r example_output(1) d n, of "''pkg''" "''/tmp/tmpw/pkg''"]
      relevance_filter [OF q' r' example_output(1) d' n', of "''pkg''" "''/tmp/tmpw/pkg''"]
    by (simp add: example_output example_paths c)
qed

lemma step_events: "\<forall>e \<in> set (fst (step name rc d v)). loop_event rc e"
  by (auto simp: step_def Let_def run_command_def loop_event_def
      split: sum.splits proc_outcome.splits option.splits list.splits)

lemma walk_events: "\<forall>e \<in> set (fst (walk name rc d vs)). loop_event rc e"
proof (induction vs arbitrary: d)
  case Nil
  show ?case by simp
next
  case (Cons v vs)
  show ?case
    using step_events [of name rc d v] Cons.IH
    by (auto simp: walk_Cons simp del: walk.simps split: prod.splits sum.splits ctl.splits)
qed

text \<open>
  Claim C9. When the temporary directory cannot be created the run makes no call at
  all. Otherwise every run, whatever its result, starts by creating the one
  temporary directory and copying the repository into it, and its last call removes
  that directory; in between the directory is neither created nor removed again,
  nothing is copied, and every checkout is a checkout in the copy. The rendering
  makes no call, so an error in it comes after the removal.
\<close>

theorem temporary_directory_released:
  "case mkdtemp w of
     None \<Rightarrow> produce_changelog fill repopath w = ([], Inl OSError)
   | Some workdir \<Rightarrow>
       (\<exists>mid. fst (produce_changelog fill repopath w)
                = [TempDirCreate workdir,
                   CopyTree repopath (workdir @ ''/'' @ basename repopath)]
                  @ mid @ [TempDirCleanup workdir] \<and>
              (\<forall>e \<in> set mid. e = OpenRepository (workdir @ ''/'' @ basename repopath) \<or>
                               loop_event (workdir @ ''/'' @ basename repopath) e))"
proof (cases "mkdtemp w")
  case None
  then show ?thesis by (simp add: produce_changelog_def)
next
  case (Some workdir)
  let ?rc = "workdir @ ''/'' @ basename repopath"
  have "\<exists>mid. fst (with_body repopath (basename repopath) ?rc w)
              = CopyTree repopath ?rc # mid \<and>
            (\<forall>e \<in> set mid. e = OpenRepository ?rc \<or> loop_event ?rc e)"
    using walk_events [of "basename repopath" ?rc "[]" "history w"]
    by (cases "repository_error w") (simp_all add: with_body_def case_prod_beta)
  then show ?thesis
    using Some by (auto simp: produce_changelog_def Let_def case_prod_beta)
qed


theorem temporary_directory_released_witness:
  "mkdtemp (world_of [visit_of c_new, v_checkout_fails]) = Some ''/tmp/tmpw'' \<and>
   (\<exists>mid. fst (produce_changelog (\<lambda>s. s) ''/home/u/pkg''
                 (world_of [visit_of c_new, v_checkout_fails]))
            = [TempDirCreate ''/tmp/tmpw'', CopyTree ''/home/u/pkg'' ''/tmp/tmpw/pkg'']
              @ mid @ [TempDirCleanup ''/tmp/tmpw''] \<and>
          list_all (\<lambda>e. e = OpenRepository ''/tmp/tmpw/pkg'' \<or> loop_event ''/tmp/tmpw/pkg'' e)
            mid) \<and>
   produce_changelog (\<lambda>s. s) ''/home/u/pkg'' (world_of [visit_of c_new, v_checkout_fails])
     = ([TempDirCreate ''/tmp/tmpw'',
         CopyTree ''/home/u/pkg'' ''/tmp/tmpw/pkg'',
         OpenRepository ''/tmp/tmpw/pkg'',
         CheckoutTree ''/tmp/tmpw/pkg'' ''c2'',
         PathExists ''/tmp/tmpw/pkg/pkg.spec'',
         CheckOutput (rpm_command ''pkg'') ''/tmp/tmpw/pkg'',
         RepoDiff ''/tmp/tmpw/pkg'' ''c1'' ''c2'',
         CheckoutTree ''/tmp/tmpw/pkg'' ''c1'',
         TempDirCleanup ''/tmp/tmpw''],
        Inl GitError)"
proof -
  have m: "mkdtemp (world_of [visit_of c_new, v_checkout_fails]) = Some ''/tmp/tmpw''"
    by (simp add: world_of_def)
  have b: "basename ''/home/u/pkg'' = ''pkg''"
    by (simp add: basename_def)
  have r: "produce_changelog (\<lambda>s. s) ''/home/u/pkg'' (world_of [visit_of c_new, v_checkout_fails])
     = ([TempDirCreate ''/tmp/tmpw'',
         CopyTree ''/home/u/pkg'' ''/tmp/tmpw/pkg'',
         OpenRepository ''/tmp/tmpw/pkg'',
         CheckoutTree ''/tmp/tmpw/pkg'' ''c2'',
         PathExists ''/tmp/tmpw/pkg/pkg.spec'',
         CheckOutput (rpm_command ''pkg'') ''/tmp/tmpw/pkg'',
         RepoDiff ''/tmp/tmpw/pkg'' ''c1'' ''c2'',
         CheckoutTree ''/tmp/tmpw/pkg'' ''c1'',
         TempDirCleanup ''/tmp/tmpw''],
        Inl GitError)"
    by code_simp
  have e: "\<exists>mid. fst (produce_changelog (\<lambda>s. s) ''/home/u/pkg''
                 (world_of [visit_of c_new, v_checkout_fails]))
            = [TempDirCreate ''/tmp/tmpw'', CopyTree ''/home/u/pkg'' ''/tmp/tmpw/pkg'']
              @ mid @ [TempDirCleanup ''/tmp/tmpw''] \<and>
          list_all (\<lambda>e. e = OpenRepository ''/tmp/tmpw/pkg'' \<or> loop_event ''/tmp/tmpw/pkg'' e)
            mid"
    using temporary_directory_released [where w = "world_of [visit_of c_new, v_checkout_fails]"
        and fill = "\<lambda>s. s" and repopath = "''/home/u/pkg''"]
    unfolding m b by (simp add: list_all_iff)
  show ?thesis
    using m e r by blast
qed


section \<open>The rendering of a group and the tuple read from the query\<close>


lemma utcfromtimestamp_Inr:
  "utcfromtimestamp t = Inr dt \<Longrightarrow> dt = t * 1000000"
  by (simp add: utcfromtimestamp_def split: if_splits)

lemma render_entry_plain:
  "render_entry fill nvr False c = Inr ls \<Longrightarrow> ls = plain_entry fill c"
  by (auto simp: render_entry_def plain_entry_def split: sum.splits
      dest: utcfromtimestamp_Inr)

lemma render_entry_last:
  "render_entry fill nvr True c = Inr ls \<Longrightarrow>
   \<exists>version release. tuple_get nvr 1 = Inr version \<and> tuple_get nvr 2 = Inr release \<and>
     ls = release_entry fill version release c"
  by (auto simp: render_entry_def release_entry_def split: sum.splits
      dest: utcfromtimestamp_Inr)

lemma render_commits_shape:
  "render_commits fill nvr n idx (cs @ [c]) = Inr lines \<Longrightarrow> idx + length cs + 1 = n \<Longrightarrow>
   \<exists>version release. tuple_get nvr 1 = Inr version \<and> tuple_get nvr 2 = Inr release \<and>
     lines = concat (map (plain_entry fill) cs) @ release_entry fill version release c"
proof (induction cs arbitrary: idx lines)
  case Nil
  then show ?case
    by (auto split: sum.splits dest: render_entry_last)
next
  case (Cons a cs)
  from Cons.prems(2) have ne: "idx + 1 \<noteq> n" by simp
  from Cons.prems(1) ne obtain ls rest where
    a: "render_entry fill nvr False a = Inr ls"
    and r: "render_commits fill nvr n (idx + 1) (cs @ [c]) = Inr rest"
    and l: "lines = ls @ rest"
    by (auto split: sum.splits)
  from Cons.prems(2) have "idx + 1 + length cs + 1 = n" by simp
  from Cons.IH [OF r this] obtain version release where
    "tuple_get nvr 1 = Inr version" "tuple_get nvr 2 = Inr release"
    "rest = concat (map (plain_entry fill) cs) @ release_entry fill version release c"
    by blast
  then show ?case
    using render_entry_plain [OF a] l by simp
qed

text \<open>
  Claim C1, amended. The lines of a rendered group are the entries of its commits in
  the reverse of the order in which the walk appended them (oldest first when the
  walk yields the newest first), three lines each, and exactly one header carries
  the suffix \<open> - <version>-<release>\<close>: the header of the entry rendered last, which
  is the commit the walk appended first, the newest of the group. Every other
  header has no suffix.
\<close>

theorem group_rendering:
  assumes "render_group fill (nvr, commits) = Inr lines" and "commits \<noteq> []"
  shows "\<exists>version release. tuple_get nvr 1 = Inr version \<and> tuple_get nvr 2 = Inr release \<and>
           lines = concat (map (plain_entry fill) (rev (tl commits)))
                   @ release_entry fill version release (hd commits)"
proof -
  from assms(2) have r: "rev commits = rev (tl commits) @ [hd commits]"
    by (cases commits) simp_all
  from assms(2) have n: "0 + length (rev (tl commits)) + 1 = length commits"
    by (cases commits) simp_all
  from assms(1) have "render_commits fill nvr (length commits) 0 (rev (tl commits) @ [hd commits])
      = Inr lines"
    by (simp add: render_group_def r)
  from render_commits_shape [OF this n] show ?thesis .
qed

theorem group_rendering_witness:
  "render_group (\<lambda>s. s) ([''pkg'', ''1.0'', ''1''], [c_new, c_old])
     = Inr [''* Mon Jun 01 2020 Bob <bob@example.org>'', ''- Initial import'', '''',
            ''* Tue Jun 02 2020 Ann <ann@example.org> - 1.0-1'', ''- Update to 1.0'', ''''] \<and>
   [c_new, c_old] \<noteq> [] \<and>
   [''* Mon Jun 01 2020 Bob <bob@example.org>'', ''- Initial import'', '''',
    ''* Tue Jun 02 2020 Ann <ann@example.org> - 1.0-1'', ''- Update to 1.0'', '''']
     = concat (map (plain_entry (\<lambda>s. s)) [c_old]) @ release_entry (\<lambda>s. s) ''1.0'' ''1'' c_new"
proof -
  have r: "render_group (\<lambda>s. s) ([''pkg'', ''1.0'', ''1''], [c_new, c_old])
     = Inr [''* Mon Jun 01 2020 Bob <bob@example.org>'', ''- Initial import'', '''',
            ''* Tue Jun 02 2020 Ann <ann@example.org> - 1.0-1'', ''- Update to 1.0'', '''']"
    by code_simp
  have n: "[c_new, c_old] \<noteq> []" by simp
  show ?thesis
    using r group_rendering [OF r n] by (simp add: tuple_get_def)
qed

text \<open>
  Claim C1 as stated fails: of two commits of one group, the header of the older one
  (2020-06-01) has no suffix, and the suffix is on the header of the newer one
  (2020-06-02).
\<close>

theorem group_rendering_counterexample:
  "commit_time c_old < commit_time c_new \<and>
   snd (produce_changelog (\<lambda>s. s) ''/home/u/pkg'' (world_of [visit_of c_new, visit_of c_old]))
     = Inr [''* Mon Jun 01 2020 Bob <bob@example.org>'', ''- Initial import'', '''',
            ''* Tue Jun 02 2020 Ann <ann@example.org> - 1.0-1'', ''- Update to 1.0'', '''']"
  by code_simp

text \<open>
  Claim C2 on the query output \<open>pkg  1.0  1\<close>, a release with no dot in it: the last dot
  of the line is the dot of the version, so the tuple read is \<open>('pkg', '1')\<close> instead of
  \<open>('pkg', '1.0', '1')\<close>, and rendering the group of such a commit raises \<open>IndexError\<close>.
\<close>

theorem release_without_dot:
  "parse_output no_dist_tag = [''pkg'', ''1''] \<and>
   snd (produce_changelog (\<lambda>s. s) ''/home/u/pkg''
          (world_of [(visit_of c_new)\<lparr>query := Returned no_dist_tag\<rparr>]))
     = Inl IndexError"
  by code_simp


section \<open>The number of fields of the query output\<close>


lemma times_ok_Nil: "times_ok []"
  by (simp add: times_ok_def)

lemma times_ok_Cons:
  "times_ok ((k, cs) # data) =
     (list_all (\<lambda>c. utcfromtimestamp (commit_time c) = Inr (commit_time c * 1000000)) cs \<and>
      times_ok data)"
  by (simp add: times_ok_def)

lemma times_ok_data_append:
  assumes "utcfromtimestamp (commit_time c) = Inr (commit_time c * 1000000)"
  shows "times_ok data \<Longrightarrow> times_ok (data_append k c data)"
proof (induction data)
  case Nil
  show ?case using assms by (simp add: times_ok_Cons times_ok_Nil)
next
  case (Cons g data)
  obtain k' cs where g: "g = (k', cs)" by (cases g)
  show ?case
    using Cons assms unfolding g by (simp add: times_ok_Cons)
qed

lemma step_times_ok:
  assumes "times_ok data" and "snd (step name rc data v) = Inr (ctl, data')"
  shows "times_ok data'"
proof (cases "data' = data")
  case True
  with assms(1) show ?thesis by simp
next
  case False
  with assms(2) obtain dt k where
    "utcfromtimestamp (commit_time (commit v)) = Inr dt"
    and "data' = data_append k (commit v) data"
    by (auto simp: step_def Let_def run_command_def
        split: if_splits sum.splits proc_outcome.splits option.splits)
  then show ?thesis
    using assms(1) times_ok_data_append utcfromtimestamp_Inr by blast
qed

lemma walk_times_ok:
  "times_ok data \<Longrightarrow> snd (walk name rc data vs) = Inr data' \<Longrightarrow> times_ok data'"
proof (induction vs arbitrary: data)
  case Nil
  then show ?case by simp
next
  case (Cons v vs)
  obtain es r where s: "step name rc data v = (es, r)"
    by (cases "step name rc data v")
  show ?case
  proof (cases r)
    case (Inl e)
    with s Cons.prems(2) show ?thesis by simp
  next
    case (Inr p)
    obtain ctl d where p: "p = (ctl, d)" by (cases p)
    have d: "times_ok d"
      using step_times_ok [OF Cons.prems(1), of name rc v ctl d] s Inr p by simp
    show ?thesis
    proof (cases ctl)
      case Continue
      with s Inr p Cons.prems(2) have "snd (walk name rc d vs) = Inr data'"
        by (simp add: case_prod_beta)
      with Cons.IH [OF d] show ?thesis .
    next
      case Break
      with s Inr p Cons.prems(2) d show ?thesis by simp
    qed
  qed
qed

lemma render_entry_converted:
  assumes "utcfromtimestamp (commit_time c) = Inr (commit_time c * 1000000)"
  shows "render_entry fill nvr False c = Inr (plain_entry fill c)"
    and "3 \<le> length nvr \<Longrightarrow>
         render_entry fill nvr True c = Inr (release_entry fill (nvr ! 1) (nvr ! 2) c)"
  using assms
  by (simp_all add: render_entry_def plain_entry_def release_entry_def tuple_get_def)

lemma render_commits_lines:
  assumes "3 \<le> length nvr"
    and "utcfromtimestamp (commit_time c) = Inr (commit_time c * 1000000)"
  shows "list_all (\<lambda>c. utcfromtimestamp (commit_time c) = Inr (commit_time c * 1000000)) cs \<Longrightarrow>
         idx + length cs + 1 = n \<Longrightarrow>
         render_commits fill nvr n idx (cs @ [c])
           = Inr (concat (map (plain_entry fill) cs) @ release_entry fill (nvr ! 1) (nvr ! 2) c)"
proof (induction cs arbitrary: idx)
  case Nil
  then show ?case
    by (simp add: render_entry_converted(2) [OF assms(2,1)])
next
  case (Cons a cs)
  from Cons.prems(1) have a: "utcfromtimestamp (commit_time a) = Inr (commit_time a * 1000000)"
    and cs: "list_all (\<lambda>c. utcfromtimestamp (commit_time c) = Inr (commit_time c * 1000000)) cs"
    by simp_all
  from Cons.prems(2) have ne: "idx + 1 \<noteq> n" and n: "idx + 1 + length cs + 1 = n"
    by simp_all
  have "render_commits fill nvr n (Suc idx) (cs @ [c])
      = Inr (concat (map (plain_entry fill) cs) @ release_entry fill (nvr ! 1) (nvr ! 2) c)"
    using Cons.IH [OF cs n] by simp
  then show ?case
    using ne by (simp add: render_entry_converted(1) [OF a])
qed

lemma render_group_lines:
  assumes "3 \<le> length nvr"
    and "list_all (\<lambda>c. utcfromtimestamp (commit_time c) = Inr (commit_time c * 1000000)) cs"
  shows "render_group fill (nvr, cs) = Inr (group_lines fill (nvr, cs))"
proof (cases cs)
  case Nil
  then show ?thesis by (simp add: render_group_def group_lines_def)
next
  case (Cons c cs')
  with assms(2) have c: "utcfromtimestamp (commit_time c) = Inr (commit_time c * 1000000)"
    and r: "list_all (\<lambda>c. utcfromtimestamp (commit_time c) = Inr (commit_time c * 1000000))
              (rev cs')"
    by (simp_all add: list_all_iff)
  have "0 + length (rev cs') + 1 = length cs" using Cons by simp
  from render_commits_lines [OF assms(1) c r this, of fill] show ?thesis
    using Cons by (simp add: render_group_def group_lines_def)
qed

lemma render_lines:
  "times_ok data \<Longrightarrow> \<forall>g \<in> set data. 3 \<le> length (fst g) \<Longrightarrow>
   render fill data = Inr (concat (map (group_lines fill) data))"
proof (induction data)
  case Nil
  show ?case by simp
next
  case (Cons g data)
  obtain k cs where g: "g = (k, cs)" by (cases g)
  from Cons.prems g have k: "3 \<le> length k"
    and t: "list_all (\<lambda>c. utcfromtimestamp (commit_time c) = Inr (commit_time c * 1000000)) cs"
    and d: "times_ok data" and ks: "\<forall>g \<in> set data. 3 \<le> length (fst g)"
    by (simp_all add: times_ok_Cons)
  show ?case
    by (simp add: g render_group_lines [OF k t] Cons.IH [OF d ks])
qed

lemma map_of_data_append:
  "map_of (data_append k c data) k
     = Some ((case map_of data k of None \<Rightarrow> [] | Some cs \<Rightarrow> cs) @ [c])"
proof (induction data)
  case Nil
  show ?case by simp
next
  case (Cons g data)
  obtain k' cs where g: "g = (k', cs)" by (cases g)
  show ?case unfolding g using Cons.IH by simp
qed

lemma run_lines:
  assumes "mkdtemp w = Some workdir"
    and "snd (with_body repopath (basename repopath) (workdir @ ''/'' @ basename repopath) w)
           = Inr data"
    and "\<forall>g \<in> set data. 3 \<le> length (fst g)"
  shows "snd (produce_changelog fill repopath w) = Inr (concat (map (group_lines fill) data))"
proof -
  let ?rc = "workdir @ ''/'' @ basename repopath"
  from assms(2) have "snd (walk (basename repopath) ?rc [] (history w)) = Inr data"
    by (cases "repository_error w")
       (simp_all add: with_body_def case_prod_beta split: if_splits)
  from walk_times_ok [OF times_ok_Nil this] have "times_ok data" .
  from render_lines [OF this assms(3), of fill] show ?thesis
    using assms(1,2) by (simp add: produce_changelog_def Let_def case_prod_beta)
qed

text \<open>
  Claim C3, amended. The number of fields of the query output is not checked. A commit
  that touches a spec file or a patch is recorded under the tuple read from its
  output, however many fields that tuple has: it is appended to the commits of that
  tuple. When the body of the \<open>with\<close> statement ends without an exception and every
  recorded tuple has at least three fields, the run returns the entries of all the
  collected commits, group after group, the suffix of each group made of the fields
  at positions 1 and 2 of its tuple.
\<close>

theorem field_count_not_checked:
  "(queried v \<and> query v = Returned raw \<and> decode_utf8 raw = Inr decoded \<and>
    diff_result v = Some d \<and>
    (\<exists>p \<in> set (deltas d). suffix ''.spec'' p \<or> suffix ''.patch'' p)
    \<longrightarrow> snd (step name rc data v)
          = Inr (Continue, data_append (parse_output decoded) (commit v) data) \<and>
        map_of (data_append (parse_output decoded) (commit v) data) (parse_output decoded)
          = Some ((case map_of data (parse_output decoded) of None \<Rightarrow> [] | Some cs \<Rightarrow> cs)
                  @ [commit v])) \<and>
   (mkdtemp w = Some workdir \<and>
    snd (with_body repopath (basename repopath) (workdir @ ''/'' @ basename repopath) w)
      = Inr data' \<and>
    (\<forall>g \<in> set data'. 3 \<le> length (fst g))
    \<longrightarrow> snd (produce_changelog fill repopath w)
          = Inr (concat (map (group_lines fill) data')))"
proof (intro conjI impI)
  assume a: "queried v \<and> query v = Returned raw \<and> decode_utf8 raw = Inr decoded \<and>
    diff_result v = Some d \<and>
    (\<exists>p \<in> set (deltas d). suffix ''.spec'' p \<or> suffix ''.patch'' p)"
  then show "snd (step name rc data v)
      = Inr (Continue, data_append (parse_output decoded) (commit v) data)"
    using step_recorded [where name = name and rc = rc and data = data] by simp
  show "map_of (data_append (parse_output decoded) (commit v) data) (parse_output decoded)
          = Some ((case map_of data (parse_output decoded) of None \<Rightarrow> [] | Some cs \<Rightarrow> cs)
                  @ [commit v])"
    by (rule map_of_data_append)
next
  assume "mkdtemp w = Some workdir \<and>
    snd (with_body repopath (basename repopath) (workdir @ ''/'' @ basename repopath) w)
      = Inr data' \<and>
    (\<forall>g \<in> set data'. 3 \<le> length (fst g))"
  then show "snd (produce_changelog fill repopath w)
      = Inr (concat (map (group_lines fill) data'))"
    using run_lines by blast
qed


lemma example_four_fields:
  "decode_utf8 four_fields = Inr four_fields"
  "parse_output four_fields = [''pkg'', ''1.0'', ''1'', ''extra'']"
  "snd (with_body ''/home/u/pkg'' ''pkg'' ''/tmp/tmpw/pkg'' (world_of [visit_of c_new, v_four_fields]))
     = Inr [([''pkg'', ''1.0'', ''1''], [c_new]), ([''pkg'', ''1.0'', ''1'', ''extra''], [c_old])]"
  by code_simp+

lemma example_entries:
  "commit_time c_new * 1000000 = 1591100000000000"
  "commit_time c_old * 1000000 = 1591000000000000"
  "header 1591100000000000 c_new = ''* Tue Jun 02 2020 Ann <ann@example.org>''"
  "header 1591000000000000 c_old = ''* Mon Jun 01 2020 Bob <bob@example.org>''"
  "message_line (\<lambda>s. s) c_new = ''- Update to 1.0''"
  "message_line (\<lambda>s. s) c_old = ''- Initial import''"
  by code_simp+

lemma example_four_fields_lines:
  "concat (map (group_lines (\<lambda>s. s))
     [([''pkg'', ''1.0'', ''1''], [c_new]), ([''pkg'', ''1.0'', ''1'', ''extra''], [c_old])])
     = [''* Tue Jun 02 2020 Ann <ann@example.org> - 1.0-1'', ''- Update to 1.0'', '''',
        ''* Mon Jun 01 2020 Bob <bob@example.org> - 1.0-1'', ''- Initial import'', '''']"
  by (simp add: group_lines_def plain_entry_def release_entry_def example_entries)

theorem field_count_not_checked_witness:
  "queried v_four_fields \<and> query v_four_fields = Returned four_fields \<and>
   decode_utf8 four_fields = Inr four_fields \<and>
   diff_result v_four_fields = Some \<lparr>deltas = [''pkg.spec'']\<rparr> \<and>
   suffix ''.spec'' ''pkg.spec'' \<and>
   snd (step ''pkg'' ''/tmp/tmpw/pkg'' [([''pkg'', ''1.0'', ''1''], [c_new])] v_four_fields)
     = Inr (Continue,
            [([''pkg'', ''1.0'', ''1''], [c_new]), ([''pkg'', ''1.0'', ''1'', ''extra''], [c_old])]) \<and>
   map_of [([''pkg'', ''1.0'', ''1''], [c_new]), ([''pkg'', ''1.0'', ''1'', ''extra''], [c_old])]
     [''pkg'', ''1.0'', ''1'', ''extra''] = Some [c_old] \<and>
   mkdtemp (world_of [visit_of c_new, v_four_fields]) = Some ''/tmp/tmpw'' \<and>
   snd (with_body ''/home/u/pkg'' ''pkg'' ''/tmp/tmpw/pkg'' (world_of [visit_of c_new, v_four_fields]))
     = Inr [([''pkg'', ''1.0'', ''1''], [c_new]), ([''pkg'', ''1.0'', ''1'', ''extra''], [c_old])] \<and>
   snd (produce_changelog (\<lambda>s. s) ''/home/u/pkg'' (world_of [visit_of c_new, v_four_fields]))
     = Inr [''* Tue Jun 02 2020 Ann <ann@example.org> - 1.0-1'', ''- Update to 1.0'', '''',
            ''* Mon Jun 01 2020 Bob <bob@example.org> - 1.0-1'', ''- Initial import'', '''']"
proof -
  let ?k3 = "[''pkg'', ''1.0'', ''1'']"
  let ?k4 = "[''pkg'', ''1.0'', ''1'', ''extra'']"
  let ?w = "world_of [visit_of c_new, v_four_fields]"
  have q: "queried v_four_fields" and r: "query v_four_fields = Returned four_fields"
    and d: "diff_result v_four_fields = Some \<lparr>deltas = [''pkg.spec'']\<rparr>"
    and c: "commit v_four_fields = c_old"
    and m: "mkdtemp ?w = Some ''/tmp/tmpw''"
    by (simp_all add: example_defs guard_defs)
  have p: "\<exists>p \<in> set (deltas \<lparr>deltas = [''pkg.spec'']\<rparr>). suffix ''.spec'' p \<or> suffix ''.patch'' p"
    using example_paths(1) by simp
  have b: "snd (with_body ''/home/u/pkg'' (basename ''/home/u/pkg'')
                 (''/tmp/tmpw'' @ ''/'' @ basename ''/home/u/pkg'') ?w)
           = Inr [(?k3, [c_new]), (?k4, [c_old])]"
    using example_four_fields(3) by (simp add: basename_def)
  have l: "\<forall>g \<in> set [(?k3, [c_new]), (?k4, [c_old])]. 3 \<le> length (fst g)"
    by simp
  have a: "data_append (parse_output four_fields) (commit v_four_fields) [(?k3, [c_new])]
         = [(?k3, [c_new]), (?k4, [c_old])]"
    by (simp add: example_four_fields(2) c)
  note t = field_count_not_checked [where v = v_four_fields and raw = four_fields
      and decoded = four_fields and d = "\<lparr>deltas = [''pkg.spec'']\<rparr>" and name = "''pkg''"
      and rc = "''/tmp/tmpw/pkg''" and data = "[(?k3, [c_new])]"
      and w = ?w and workdir = "''/tmp/tmpw''"
      and repopath = "''/home/u/pkg''" and fill = "\<lambda>s. s"
      and data' = "[(?k3, [c_new]), (?k4, [c_old])]"]
  from t q r d p example_four_fields(1)
  have 1: "snd (step ''pkg'' ''/tmp/tmpw/pkg'' [(?k3, [c_new])] v_four_fields)
           = Inr (Continue, [(?k3, [c_new]), (?k4, [c_old])])"
    unfolding a by blast
  from t m b l
  have "snd (produce_changelog (\<lambda>s. s) ''/home/u/pkg'' ?w)
      = Inr (concat (map (group_lines (\<lambda>s. s)) [(?k3, [c_new]), (?k4, [c_old])]))"
    by blast
  then have 2: "snd (produce_changelog (\<lambda>s. s) ''/home/u/pkg'' ?w)
      = Inr [''* Tue Jun 02 2020 Ann <ann@example.org> - 1.0-1'', ''- Update to 1.0'', '''',
             ''* Mon Jun 01 2020 Bob <bob@example.org> - 1.0-1'', ''- Initial import'', '''']"
    by (simp only: example_four_fields_lines)
  have 3: "map_of [(?k3, [c_new]), (?k4, [c_old])] ?k4 = Some [c_old]"
    by simp
  from q r d m example_four_fields(1,3) example_paths(1) 1 2 3 show ?thesis
    by (intro conjI)
qed

text \<open>
  Claim C3 as stated fails: a commit whose output has two fields is recorded like any
  other, and the run, which also collected a commit with a well-formed output, ends
  in \<open>IndexError\<close> instead of rendering.
\<close>

theorem field_count_not_checked_counterexample:
  "parse_output two_fields = [''pkg'', ''7''] \<and>
   snd (walk ''pkg'' ''/tmp/tmpw/pkg'' [] [visit_of c_new, v_two_fields])
     = Inr [([''pkg'', ''1.0'', ''1''], [c_new]), ([''pkg'', ''7''], [c_old])] \<and>
   snd (produce_changelog (\<lambda>s. s) ''/home/u/pkg'' (world_of [visit_of c_new, v_two_fields]))
     = Inl IndexError"
  by code_simp


section \<open>The tuple read when the release has a dot\<close>

text \<open>
  For an output line \<open>name  version  release.tag\<close> of visible ASCII characters, with a
  non-empty name and a non-empty tag without a dot, the tuple read is the name, the
  version and the release without its tag. This is the case lines 82 to 84 get right.
\<close>


lemma printable_not_blank: "printable c \<Longrightarrow> c \<noteq> NL \<and> c \<noteq> CHR '' ''"
  by (auto simp: printable_def NL_def)

lemma printable_list:
  "list_all printable xs \<Longrightarrow> NL \<notin> set xs \<and> CHR '' '' \<notin> set xs"
  by (auto simp: list_all_iff printable_def NL_def)

lemma whitespace_not_printable:
  "list_all (\<lambda>w. w \<noteq> [] \<and> list_all (\<lambda>c. \<not> printable c) w) whitespace"
  by code_simp

lemma NL_whitespace: "[NL] \<in> set whitespace"
  by code_simp

lemma lstrip_items_printable:
  assumes "\<forall>w \<in> set ws. \<forall>c \<in> set w. \<not> printable c" and "printable c"
  shows "lstrip_items ws (c # s) = c # s"
proof -
  have "find (\<lambda>w. w \<noteq> [] \<and> prefix w (c # s)) ws = None"
  proof (rule ccontr)
    assume "find (\<lambda>w. w \<noteq> [] \<and> prefix w (c # s)) ws \<noteq> None"
    then obtain w where w: "w \<in> set ws" "w \<noteq> []" "prefix w (c # s)"
      by (auto simp: find_None_iff)
    from w(2,3) have "c \<in> set w"
      by (cases w) simp_all
    with assms w(1) show False by blast
  qed
  then show ?thesis
    using lstrip_items.simps [of ws "c # s"] by (simp del: lstrip_items.simps)
qed

lemma lstrip_items_NL:
  assumes "\<forall>w \<in> set ws. \<forall>c \<in> set w. \<not> printable c" and "[NL] \<in> set ws"
    and "printable d"
  shows "lstrip_items ws (NL # d # t) = d # t"
proof -
  let ?P = "\<lambda>w. w \<noteq> [] \<and> prefix w (NL # d # t)"
  have "?P [NL]" by simp
  with assms(2) have "find ?P ws \<noteq> None"
    by (auto simp: find_None_iff)
  then obtain w where f: "find ?P ws = Some w" by blast
  then have w: "w \<in> set ws" "w \<noteq> []" "prefix w (NL # d # t)"
    by (auto simp: find_Some_iff)
  have "w = [NL]"
  proof (cases w)
    case Nil
    with w(2) show ?thesis by simp
  next
    case (Cons a u)
    with w(3) have a: "a = NL" and u: "prefix u (d # t)" by simp_all
    have "u = []"
    proof (cases u)
      case Nil
      then show ?thesis .
    next
      case (Cons b u')
      with u have "b = d" by simp
      with Cons \<open>w = a # u\<close> have "d \<in> set w" by simp
      with assms(1,3) w(1) show ?thesis by blast
    qed
    with a Cons show ?thesis by simp
  qed
  with f have "lstrip_items ws (NL # d # t) = lstrip_items ws (d # t)"
    using lstrip_items.simps [of ws "NL # d # t"] by (simp del: lstrip_items.simps)
  then show ?thesis
    by (simp only: lstrip_items_printable [OF assms(1,3)])
qed

lemma strip_line:
  assumes "printable c" and "printable d"
  shows "strip (c # s @ [d, NL]) = c # s @ [d]"
proof -
  have ws: "\<forall>w \<in> set whitespace. \<forall>c \<in> set w. \<not> printable c"
    using whitespace_not_printable by (auto simp: list_all_iff)
  then have ws': "\<forall>w \<in> set (map rev whitespace). \<forall>c \<in> set w. \<not> printable c"
    by auto
  have nl: "[NL] \<in> set (map rev whitespace)"
    using NL_whitespace by force
  have "lstrip_items whitespace (c # s @ [d, NL]) = c # s @ [d, NL]"
    by (rule lstrip_items_printable [OF ws assms(1)])
  moreover have "lstrip_items (map rev whitespace) (NL # d # rev s @ [c]) = d # rev s @ [c]"
    by (rule lstrip_items_NL [OF ws' nl assms(2)])
  ultimately show ?thesis
    by (simp add: strip_def rstrip_items_def)
qed

lemma split_from_absent:
  "x \<notin> set s \<Longrightarrow> split_from [x] acc s = [acc @ s]"
proof (induction s arbitrary: acc)
  case Nil
  show ?case by (subst split_from.simps) simp
next
  case (Cons a s)
  then have "split_from [x] (acc @ [a]) s = [(acc @ [a]) @ s]" by simp
  with Cons.prems show ?case
    by (subst split_from.simps) simp
qed

lemma split_from_last:
  "CHR '' '' \<notin> set f \<Longrightarrow> split_from ''  '' acc f = [acc @ f]"
proof (induction f arbitrary: acc)
  case Nil
  show ?case by (subst split_from.simps) simp
next
  case (Cons a f)
  then have "split_from ''  '' (acc @ [a]) f = [(acc @ [a]) @ f]" by simp
  with Cons.prems show ?case
    by (subst split_from.simps) simp
qed

lemma split_from_field:
  "CHR '' '' \<notin> set f \<Longrightarrow>
   split_from ''  '' acc (f @ ''  '' @ rest) = (acc @ f) # split_from ''  '' [] rest"
proof (induction f arbitrary: acc)
  case Nil
  show ?case by (subst split_from.simps) simp
next
  case (Cons a f)
  then have "split_from ''  '' (acc @ [a]) (f @ ''  '' @ rest)
      = ((acc @ [a]) @ f) # split_from ''  '' [] rest"
    by simp
  with Cons.prems show ?case
    by (subst split_from.simps) simp
qed

lemma rsplit1_head_last_dot:
  assumes "c \<notin> set t"
  shows "rsplit1_head c (a @ c # t) = a"
proof -
  have "dropWhile (\<lambda>x. x \<noteq> c) (rev t @ c # rev a) = dropWhile (\<lambda>x. x \<noteq> c) (c # rev a)"
    by (rule dropWhile_append2) (use assms in auto)
  then show ?thesis
    by (simp add: rsplit1_head_def)
qed

lemma parse_output_dotted_release:
  assumes "list_all printable name" and "list_all printable version"
    and "list_all printable rel" and "list_all printable tag"
    and "name \<noteq> []" and "tag \<noteq> []" and "CHR ''.'' \<notin> set tag"
  shows "parse_output (name @ ''  '' @ version @ ''  '' @ rel @ ''.'' @ tag @ [NL])
       = [name, version, rel]"
proof -
  let ?line = "name @ ''  '' @ version @ ''  '' @ rel @ ''.'' @ tag"
  obtain c s where name: "name = c # s" using assms(5) by (cases name) auto
  obtain t d where tag: "tag = t @ [d]" using assms(6) by (cases tag rule: rev_cases) auto
  have c: "printable c" using assms(1) name by simp
  have d: "printable d" using assms(4) tag by simp
  have "?line @ [NL] = c # (s @ ''  '' @ version @ ''  '' @ rel @ ''.'' @ t) @ [d, NL]"
    by (simp add: name tag)
  then have "strip (?line @ [NL]) = c # (s @ ''  '' @ version @ ''  '' @ rel @ ''.'' @ t) @ [d]"
    by (simp only: strip_line [OF c d])
  then have 1: "strip (?line @ [NL]) = ?line"
    by (simp add: name tag)
  have "NL \<notin> set name" "NL \<notin> set version" "NL \<notin> set rel" "NL \<notin> set tag"
    using assms(1-4) printable_list by blast+
  moreover have "NL \<noteq> CHR '' ''" "NL \<noteq> CHR ''.''"
    by (simp_all add: NL_def)
  ultimately have "NL \<notin> set ?line"
    by simp
  then have 2: "first_line ?line = ?line"
    by (simp add: first_line_def py_split_def split_from_absent del: split_from.simps)
  have 3: "rsplit1_head (CHR ''.'') ?line = name @ ''  '' @ version @ ''  '' @ rel"
    using rsplit1_head_last_dot [OF assms(7), of "name @ ''  '' @ version @ ''  '' @ rel"]
    by simp
  have sp: "CHR '' '' \<notin> set name" "CHR '' '' \<notin> set version" "CHR '' '' \<notin> set rel"
    using assms(1-3) printable_list by blast+
  have 4: "py_split ''  '' (name @ ''  '' @ version @ ''  '' @ rel) = [name, version, rel]"
    unfolding py_split_def
    by (simp only: split_from_field [OF sp(1)] split_from_field [OF sp(2)]
        split_from_last [OF sp(3)] append_Nil)
  have "parse_output ((?line) @ [NL]) = [name, version, rel]"
    unfolding parse_output_def 1 2 3 4 ..
  then show ?thesis by simp
qed


section \<open>The order of the commits of a group\<close>

text \<open>
  The commits of every group stand in the order in which the walk yielded them, so
  a group is rendered in the reverse of the walk's order.
\<close>


lemma data_append_groups:
  "(k, cs) \<in> set (data_append k' c data) \<Longrightarrow>
   (k, cs) \<in> set data \<or> (\<exists>cs0. cs = cs0 @ [c] \<and> ((k, cs0) \<in> set data \<or> cs0 = []))"
proof (induction data)
  case Nil
  then show ?case by simp
next
  case (Cons g data)
  obtain k0 cs0 where g: "g = (k0, cs0)" by (cases g)
  from Cons show ?case
    unfolding g by (auto split: if_splits)
qed

lemma step_groups:
  assumes "snd (step name rc data v) = Inr (ctl, data')" and "(k, cs) \<in> set data'"
  shows "(k, cs) \<in> set data \<or>
         (\<exists>cs0. cs = cs0 @ [commit v] \<and> ((k, cs0) \<in> set data \<or> cs0 = []))"
proof (cases "data' = data")
  case True
  with assms(2) show ?thesis by simp
next
  case False
  with assms(1) obtain k' where "data' = data_append k' (commit v) data"
    by (auto simp: step_def Let_def run_command_def
        split: if_splits sum.splits proc_outcome.splits option.splits)
  with assms(2) show ?thesis
    using data_append_groups by blast
qed

lemma walk_groups_subseq:
  "\<forall>g \<in> set data. subseq (snd g) xs \<Longrightarrow> snd (walk name rc data vs) = Inr data' \<Longrightarrow>
   \<forall>g \<in> set data'. subseq (snd g) (xs @ map commit vs)"
proof (induction vs arbitrary: data xs)
  case Nil
  then show ?case by simp
next
  case (Cons v vs)
  obtain es r where s: "step name rc data v = (es, r)"
    by (cases "step name rc data v")
  show ?case
  proof (cases r)
    case (Inl e)
    with s Cons.prems(2) show ?thesis by simp
  next
    case (Inr p)
    obtain ctl d where p: "p = (ctl, d)" by (cases p)
    have d: "\<forall>g \<in> set d. subseq (snd g) (xs @ [commit v])"
    proof
      fix g assume g: "g \<in> set d"
      obtain k cs where kc: "g = (k, cs)" by (cases g)
      have "snd (step name rc data v) = Inr (ctl, d)"
        using s Inr p by simp
      from step_groups [OF this] g kc
      consider "(k, cs) \<in> set data"
        | cs0 where "cs = cs0 @ [commit v]" "(k, cs0) \<in> set data \<or> cs0 = []"
        by blast
      then show "subseq (snd g) (xs @ [commit v])"
      proof cases
        case 1
        with Cons.prems(1) have "subseq cs xs" by force
        then show ?thesis by (simp add: kc subseq_rev_drop_many)
      next
        case 2
        with Cons.prems(1) have "subseq cs0 xs" by force
        then show ?thesis
          using 2(1) by (simp add: kc)
      qed
    qed
    show ?thesis
    proof (cases ctl)
      case Continue
      with s Inr p Cons.prems(2) have "snd (walk name rc d vs) = Inr data'"
        by (simp add: case_prod_beta)
      from Cons.IH [OF d this] show ?thesis by simp
    next
      case Break
      with s Inr p Cons.prems(2) have "data' = d" by simp
      with d have "\<forall>g \<in> set data'. subseq (snd g) (xs @ [commit v])" by simp
      then have "\<forall>g \<in> set data'. subseq (snd g) ((xs @ [commit v]) @ map commit vs)"
        using subseq_rev_drop_many by blast
      then show ?thesis by simp
    qed
  qed
qed

lemma walk_groups_in_walk_order:
  assumes "snd (walk name rc [] vs) = Inr data" and "(k, cs) \<in> set data"
  shows "subseq cs (map commit vs)"
  using walk_groups_subseq [of "[]" "[]" name rc vs data] assms by force


section \<open>The missing spec file and the age cut-off\<close>








text \<open>
  Claim C4, amended. Take a commit that is not a merge and whose timestamp
  \<open>utcfromtimestamp\<close> can convert. If it is strictly older than the clock minus 730
  days, the walk ends at it without an exception and without a single call: the walk
  is the walk on the commits before it, and nothing after it is examined. If it is
  at or after that bound, it does not end the walk by its age and is checked out. A
  merge commit is skipped whatever its timestamp: the walk is the walk on the
  history without it.
\<close>

theorem age_cutoff:
  "(length (parents (commit v)) \<le> 1 \<and> utcfromtimestamp (commit_time (commit v)) = Inr dt
    \<longrightarrow> (if dt < utcnow v - timedelta_days 730
         then walk name rc d (v # post) = ([], Inr d) \<and>
              walk name rc d (pre @ v # post) = walk name rc d pre
         else (\<exists>es r. step name rc d v = (CheckoutTree rc (hex (commit v)) # es, r)))) \<and>
   (1 < length (parents (commit m))
    \<longrightarrow> walk name rc d (pre @ m # post) = walk name rc d (pre @ post))"
proof (intro conjI impI)
  assume a: "length (parents (commit v)) \<le> 1 \<and>
    utcfromtimestamp (commit_time (commit v)) = Inr dt"
  show "if dt < utcnow v - timedelta_days 730
        then walk name rc d (v # post) = ([], Inr d) \<and>
             walk name rc d (pre @ v # post) = walk name rc d pre
        else (\<exists>es r. step name rc d v = (CheckoutTree rc (hex (commit v)) # es, r))"
  proof (cases "dt < utcnow v - timedelta_days 730")
    case True
    have s: "step name rc d' v = ([], Inr (Break, d'))" for d'
      using a True by (simp add: step_too_old)
    have "walk name rc d (v # post) = ([], Inr d)"
      by (rule walk_break) (rule s)
    moreover have "walk name rc d (pre @ v # post) = walk name rc d pre"
      by (rule walk_stop) (rule s)
    ultimately show ?thesis using True by simp
  next
    case False
    have "survives v"
      using a False by (simp add: survives_def)
    then show ?thesis
      using False step_survivor_checkout [of v name rc d] by simp
  qed
next
  assume "1 < length (parents (commit m))"
  then show "walk name rc d (pre @ m # post) = walk name rc d (pre @ post)"
    by (intro walk_skip step_merge)
qed

theorem age_cutoff_witness:
  "length (parents (commit v_too_old)) \<le> 1 \<and>
   utcfromtimestamp (commit_time (commit v_too_old)) = Inr 1536927999000000 \<and>
   (1536927999000000 :: int) < utcnow v_too_old - timedelta_days 730 \<and>
   walk ''pkg'' ''/tmp/tmpw/pkg'' [] [v_too_old, visit_of c_old] = ([], Inr []) \<and>
   walk ''pkg'' ''/tmp/tmpw/pkg'' [] [visit_of c_new, v_too_old, visit_of c_old]
     = walk ''pkg'' ''/tmp/tmpw/pkg'' [] [visit_of c_new] \<and>
   length (parents (commit v_at_cutoff)) \<le> 1 \<and>
   utcfromtimestamp (commit_time (commit v_at_cutoff)) = Inr 1536928000000000 \<and>
   \<not> (1536928000000000 :: int) < utcnow v_at_cutoff - timedelta_days 730 \<and>
   (\<exists>es r. step ''pkg'' ''/tmp/tmpw/pkg'' [] v_at_cutoff
             = (CheckoutTree ''/tmp/tmpw/pkg'' ''c1'' # es, r)) \<and>
   1 < length (parents (commit v_old_merge)) \<and>
   walk ''pkg'' ''/tmp/tmpw/pkg'' [] [visit_of c_new, v_old_merge, v_too_old]
     = walk ''pkg'' ''/tmp/tmpw/pkg'' [] [visit_of c_new, v_too_old]"
proof -
  have p: "length (parents (commit v_too_old)) \<le> 1"
    and t: "utcfromtimestamp (commit_time (commit v_too_old)) = Inr 1536927999000000"
    and o: "(1536927999000000 :: int) < utcnow v_too_old - timedelta_days 730"
    by (simp_all add: example_defs guard_defs)
  have p': "length (parents (commit v_at_cutoff)) \<le> 1"
    and t': "utcfromtimestamp (commit_time (commit v_at_cutoff)) = Inr 1536928000000000"
    and o': "\<not> (1536928000000000 :: int) < utcnow v_at_cutoff - timedelta_days 730"
    and h: "hex (commit v_at_cutoff) = ''c1''"
    by (simp_all add: example_defs guard_defs)
  have g: "1 < length (parents (commit v_old_merge))"
    by (simp add: example_defs)
  show ?thesis
    using p t o p' t' o' g
      age_cutoff [where v = v_too_old and dt = 1536927999000000 and name = "''pkg''"
        and rc = "''/tmp/tmpw/pkg''" and d = "[]" and pre = "[visit_of c_new]"
        and post = "[visit_of c_old]" and m = v_old_merge]
      age_cutoff [where v = v_at_cutoff and dt = 1536928000000000 and name = "''pkg''"
        and rc = "''/tmp/tmpw/pkg''" and d = "[]" and pre = "[visit_of c_new]"
        and post = "[v_too_old]" and m = v_old_merge]
    by (simp add: h)
qed

text \<open>
  Claim C4 as stated fails on a history yielded newest first: a commit of 2020, a
  merge commit of 2017 and a commit dated one second before the year 1. The merge
  commit is the first one older than the bound, and the walk does not end at it: the
  test of line 56 comes first, the walk goes on to the next commit, and there it
  raises \<open>ValueError\<close> instead of ending. The same commit alone makes the walk raise.
\<close>

theorem age_cutoff_counterexample:
  "commit_time (commit v_year_0) < commit_time (commit v_old_merge) \<and>
   commit_time (commit v_old_merge) < commit_time (commit (visit_of c_new)) \<and>
   commit_time (commit v_old_merge) * 1000000 < utcnow v_old_merge - timedelta_days 730 \<and>
   commit_time (commit v_year_0) * 1000000 < utcnow v_year_0 - timedelta_days 730 \<and>
   length (parents (commit v_year_0)) \<le> 1 \<and>
   walk ''pkg'' ''/tmp/tmpw/pkg'' [] [v_year_0] = ([], Inl ValueError) \<and>
   walk ''pkg'' ''/tmp/tmpw/pkg'' [] [visit_of c_new, v_old_merge, v_year_0] =
     ([CheckoutTree ''/tmp/tmpw/pkg'' ''c2'',
       PathExists ''/tmp/tmpw/pkg/pkg.spec'',
       CheckOutput (rpm_command ''pkg'') ''/tmp/tmpw/pkg'',
       RepoDiff ''/tmp/tmpw/pkg'' ''c1'' ''c2''],
      Inl ValueError)"
  by code_simp


end
